theory Spec2Isabelle
  imports Complex_Main
begin

section \<open>The collaborators reached through \<open>this.faker\<close>\<close>

text \<open>
  The class \<open>Internet\<close> holds one field, \<open>faker\<close>, and every draw of randomness and every
  word list is obtained through it. The collaborators that \<open>password\<close>, \<open>userName\<close>, \<open>email\<close>,
  \<open>color\<close> and \<open>mac\<close> reach (\<open>faker.datatype.number\<close>, \<open>faker.random.arrayElement\<close>,
  \<open>faker.helpers.slugify\<close>, \<open>faker.name\<close>, \<open>faker.definitions.internet.free_email\<close>) are not
  part of the module, so they are taken as parameters: a record of functions over an
  arbitrary provider state \<open>'s\<close>. A function that draws takes the state and returns the value
  together with the state after the draw.

  Strings are \<open>char list\<close>.
\<close>

record 's Faker =
  datatype_number :: "nat \<Rightarrow> 's \<Rightarrow> nat \<times> 's"
  random_arrayElement :: "string list \<Rightarrow> 's \<Rightarrow> string \<times> 's"
  helpers_slugify :: "string \<Rightarrow> string"
  name_firstName :: "'s \<Rightarrow> string \<times> 's"
  name_lastName :: "'s \<Rightarrow> string \<times> 's"
  free_email :: "string list"

text \<open>
  The contract of the provider, as the module relies on it: \<open>number(max)\<close> lies in
  \<open>[0, max]\<close>, both ends included (the module draws octets with \<open>number(255)\<close>, nibbles with
  \<open>number(15)\<close> and a three-way switch with \<open>number(2)\<close>), and \<open>arrayElement\<close> of a list that is
  not empty is one of its elements.
\<close>

definition number_bounded :: "'s Faker \<Rightarrow> bool" where
  "number_bounded F = (\<forall>max s. fst (datatype_number F max s) \<le> max)"

definition arrayElement_member :: "'s Faker \<Rightarrow> bool" where
  "arrayElement_member F =
     (\<forall>xs s. xs \<noteq> [] \<longrightarrow> fst (random_arrayElement F xs s) \<in> set xs)"

section \<open>JavaScript primitives used by the module\<close>

datatype error = TypeError

text \<open>
  A JavaScript number, as \<open>password\<close> receives its length: a finite value, which need not
  be whole, or one of the three special values. \<open>x || d\<close> takes the default for 0 and for
  NaN; \<open>n >= x\<close> with \<open>n\<close> a string length is false for NaN.
\<close>

datatype number = Finite rat | NaN | PosInfinity | NegInfinity

definition falsy_number :: "number \<Rightarrow> bool" where
  "falsy_number x = (x = Finite 0 \<or> x = NaN)"

fun ge_length :: "nat \<Rightarrow> number \<Rightarrow> bool" where
  "ge_length n (Finite q) = (q \<le> of_nat n)"
| "ge_length n NaN = False"
| "ge_length n PosInfinity = False"
| "ge_length n NegInfinity = True"

text \<open>
  A regular expression object, as \<open>str.match(re)\<close> observes it. The call reads the
  \<open>lastIndex\<close> of the object and may write it (a sticky pattern keeps the end of its last
  match there and goes back to 0 on a failure), so the object is the function \<open>exec\<close>, from
  the \<open>lastIndex\<close> and the string to whether there is a match and to the \<open>lastIndex\<close> after
  the call, together with the current \<open>lastIndex\<close>. A literal without flags never looks at
  \<open>lastIndex\<close> nor changes it: it is given by its test alone.
\<close>

record RegExp =
  exec :: "nat \<Rightarrow> string \<Rightarrow> bool \<times> nat"
  lastIndex :: nat

definition flagless :: "(string \<Rightarrow> bool) \<Rightarrow> RegExp" where
  "flagless p = \<lparr> exec = (\<lambda>i str. (p str, i)), lastIndex = 0 \<rparr>"

text \<open>\<open>str.match(re)\<close>: whether the result is not null, and the object after the call.\<close>

definition str_match :: "string \<Rightarrow> RegExp \<Rightarrow> bool \<times> RegExp" where
  "str_match str re =
     (fst (exec re (lastIndex re) str), re\<lparr>lastIndex := snd (exec re (lastIndex re) str)\<rparr>)"

definition digit_char :: "nat \<Rightarrow> char" where
  "digit_char d = ''0123456789abcdef'' ! (d mod 16)"

fun toString10 :: "nat \<Rightarrow> string" where
  "toString10 n = (if n < 10 then [digit_char n] else toString10 (n div 10) @ [digit_char (n mod 10)])"

fun toString16 :: "nat \<Rightarrow> string" where
  "toString16 n = (if n < 16 then [digit_char n] else toString16 (n div 16) @ [digit_char (n mod 16)])"

declare toString10.simps [simp del] toString16.simps [simp del]

text \<open>\<open>Number.prototype.toString(16)\<close> on a whole number that may be negative.\<close>

definition int_toString16 :: "int \<Rightarrow> string" where
  "int_toString16 i = (if i < 0 then CHR ''-'' # toString16 (nat (- i)) else toString16 (nat i))"

text \<open>\<open>String.fromCharCode\<close> and \<open>toLowerCase\<close> on one code unit below 256.\<close>

definition fromCharCode :: "nat \<Rightarrow> string" where
  "fromCharCode n = [char_of n]"

definition lower_char :: "char \<Rightarrow> char" where
  "lower_char c =
     (let k = (of_char c :: nat)
      in if (65 \<le> k \<and> k \<le> 90) \<or> (192 \<le> k \<and> k \<le> 222 \<and> k \<noteq> 215) then char_of (k + 32) else c)"

definition toLowerCase :: "string \<Rightarrow> string" where
  "toLowerCase s = map lower_char s"

text \<open>\<open>x || d\<close> on an optional string: the default is taken when \<open>x\<close> is undefined or empty.\<close>

definition falsy :: "string option \<Rightarrow> bool" where
  "falsy x = (case x of None \<Rightarrow> True | Some v \<Rightarrow> v = [])"

section \<open>password\<close>

text \<open>
  The tests of the three literals of the source, none of which has a flag:
  \<open>/[aeiouAEIOU]$/\<close>, the consonant class with \<open>$\<close>, and \<open>/\w/\<close>.
\<close>

definition vowel :: "string \<Rightarrow> bool" where
  "vowel s = (s \<noteq> [] \<and> last s \<in> set ''aeiouAEIOU'')"

definition consonant :: "string \<Rightarrow> bool" where
  "consonant s = (s \<noteq> [] \<and> last s \<in> set ''bcdfghjklmnpqrstvwxyzBCDFGHJKLMNPQRSTVWXYZ'')"

definition word_char :: "char \<Rightarrow> bool" where
  "word_char c =
     (let k = (of_char c :: nat)
      in (48 \<le> k \<and> k \<le> 57) \<or> (65 \<le> k \<and> k \<le> 90) \<or> k = 95 \<or> (97 \<le> k \<and> k \<le> 122))"

definition word_pattern :: "string \<Rightarrow> bool" where
  "word_pattern s = list_ex word_char s"

text \<open>
  The inner arrow function \<open>_password\<close>. It returns only through its first test; a rejected
  candidate makes it call itself with the same prefix, so it need not return at all: the
  result \<open>None\<close> stands for a run that never returns. The pattern it passes on is the object
  it has just matched against, with the \<open>lastIndex\<close> that match left.
\<close>

partial_function (option) password_rec ::
  "'s Faker \<Rightarrow> number \<Rightarrow> bool \<Rightarrow> RegExp \<Rightarrow> string \<Rightarrow> 's \<Rightarrow> (string \<times> 's) option" where
  "password_rec F length' memorable pattern prefix s =
     (if ge_length (length prefix) length' then Some (prefix, s)
      else
        let pattern1 = (if memorable
                        then (if fst (str_match prefix (flagless consonant))
                              then flagless vowel else flagless consonant)
                        else pattern);
            n = fst (datatype_number F 94 s) + 33;
            s1 = snd (datatype_number F 94 s);
            char = (if memorable then toLowerCase (fromCharCode n) else fromCharCode n);
            m = str_match char pattern1
        in if \<not> fst m then password_rec F length' memorable (snd m) prefix s1
           else password_rec F length' memorable (snd m) (prefix @ char) s1)"

declare password_rec.simps [code]

definition password ::
  "'s Faker \<Rightarrow> number option \<Rightarrow> bool option \<Rightarrow> RegExp option \<Rightarrow> string option \<Rightarrow> 's
     \<Rightarrow> (string \<times> 's) option" where
  "password F len memorable pattern prefix s =
     (let len1 = (case len of None \<Rightarrow> Finite 15
                  | Some l \<Rightarrow> if falsy_number l then Finite 15 else l);
          memorable1 = (case memorable of None \<Rightarrow> False | Some m \<Rightarrow> m)
      in password_rec F len1 memorable1
           (case pattern of None \<Rightarrow> flagless word_pattern | Some p \<Rightarrow> p)
           (case prefix of None \<Rightarrow> [] | Some p \<Rightarrow> p) s)"

section \<open>userName, email, color and mac\<close>

text \<open>\<open>x || f()\<close>: the right operand is evaluated, and draws, only when \<open>x\<close> is falsy.\<close>

definition or_else :: "string option \<Rightarrow> ('s \<Rightarrow> string \<times> 's) \<Rightarrow> 's \<Rightarrow> string \<times> 's" where
  "or_else x d s = (if falsy x then d s else (case x of Some v \<Rightarrow> (v, s) | None \<Rightarrow> d s))"

text \<open>The two global replacements at the end of \<open>userName\<close>: apostrophes, then spaces.\<close>

definition strip_quote_space :: "string \<Rightarrow> string" where
  "strip_quote_space r = filter (\<lambda>c. c \<noteq> CHR '' '') (filter (\<lambda>c. c \<noteq> CHR 0x27) r)"

text \<open>
  \<open>userName\<close>. The switch has the cases 0, 1 and 2 and no default: on any other value
  \<open>result\<close> stays undefined and \<open>result.toString()\<close> raises a TypeError.
\<close>

definition userName ::
  "'s Faker \<Rightarrow> string option \<Rightarrow> string option \<Rightarrow> 's \<Rightarrow> error + string \<times> 's" where
  "userName F firstName lastName s =
     (case or_else firstName (name_firstName F) s of (firstName1, s1) \<Rightarrow>
      case or_else lastName (name_lastName F) s1 of (lastName1, s2) \<Rightarrow>
      case datatype_number F 2 s2 of (k, s3) \<Rightarrow>
        if k = 0 then
          (case datatype_number F 99 s3 of (d, s4) \<Rightarrow>
             Inr (strip_quote_space (firstName1 @ toString10 d), s4))
        else if k = 1 then
          (case random_arrayElement F [''.'', ''_''] s3 of (sep, s4) \<Rightarrow>
             Inr (strip_quote_space (firstName1 @ sep @ lastName1), s4))
        else if k = 2 then
          (case random_arrayElement F [''.'', ''_''] s3 of (sep, s4) \<Rightarrow>
           case datatype_number F 99 s4 of (d, s5) \<Rightarrow>
             Inr (strip_quote_space (firstName1 @ sep @ lastName1 @ toString10 d), s5))
        else Inl TypeError)"

definition email ::
  "'s Faker \<Rightarrow> string option \<Rightarrow> string option \<Rightarrow> string option \<Rightarrow> 's \<Rightarrow> error + string \<times> 's" where
  "email F firstName lastName provider s =
     (case or_else provider (random_arrayElement F (free_email F)) s of (provider1, s1) \<Rightarrow>
        (case userName F firstName lastName s1 of
           Inl e \<Rightarrow> Inl e
         | Inr (u, s2) \<Rightarrow> Inr (helpers_slugify F u @ ''@'' @ provider1, s2)))"

text \<open>\<open>color\<close>: an omitted base is 0; a channel is written with a leading zero when its
  hexadecimal form has one character.\<close>

definition pad2 :: "string \<Rightarrow> string" where
  "pad2 str = (if length str = 1 then ''0'' else []) @ str"

definition color ::
  "'s Faker \<Rightarrow> int option \<Rightarrow> int option \<Rightarrow> int option \<Rightarrow> 's \<Rightarrow> string \<times> 's" where
  "color F baseRed255 baseGreen255 baseBlue255 s =
     (case datatype_number F 256 s of (r, s1) \<Rightarrow>
      case datatype_number F 256 s1 of (g, s2) \<Rightarrow>
      case datatype_number F 256 s2 of (b, s3) \<Rightarrow>
        let red = (int r + (case baseRed255 of None \<Rightarrow> 0 | Some v \<Rightarrow> v)) div 2;
            green = (int g + (case baseGreen255 of None \<Rightarrow> 0 | Some v \<Rightarrow> v)) div 2;
            blue = (int b + (case baseBlue255 of None \<Rightarrow> 0 | Some v \<Rightarrow> v)) div 2
        in (''#'' @ pad2 (int_toString16 red) @ pad2 (int_toString16 green)
              @ pad2 (int_toString16 blue), s3))"

text \<open>\<open>mac\<close>: the loop over \<open>i = 0 .. 11\<close>, then the function with its separator check.\<close>

function mac_loop :: "'s Faker \<Rightarrow> string \<Rightarrow> nat \<Rightarrow> string \<Rightarrow> 's \<Rightarrow> string \<times> 's" where
  "mac_loop F validSep i mac s =
     (if i < 12 then
        let mac1 = mac @ toString16 (fst (datatype_number F 15 s));
            s1 = snd (datatype_number F 15 s);
            mac2 = (if i mod 2 = 1 \<and> i \<noteq> 11 then mac1 @ validSep else mac1)
        in mac_loop F validSep (i + 1) mac2 s1
      else (mac, s))"
  by pat_completeness auto
termination
  by (relation "measure (\<lambda>(F, validSep, i, mac, s). 12 - i)") auto

declare mac_loop.simps [simp del]

definition mac :: "'s Faker \<Rightarrow> string option \<Rightarrow> 's \<Rightarrow> string \<times> 's" where
  "mac F sep s =
     (let validSep = (case sep of None \<Rightarrow> '':''
                      | Some x \<Rightarrow> if x \<in> set [''-'', ''''] then x else '':'')
      in mac_loop F validSep 0 [] s)"

section \<open>Notions used to state the properties\<close>

text \<open>
  The constraint under which \<open>_password\<close> accepts the characters it appends, read off its
  steps 2 to 5: a character is accepted against the constraint that is active for the prefix
  built so far, and joins that prefix. In memorable mode the constraint is the vowel class
  after a consonant and the consonant class otherwise; else it is a match of the caller's
  pattern, at the \<open>lastIndex\<close> the pattern then has.
\<close>

fun accepted :: "bool \<Rightarrow> (nat \<Rightarrow> string \<Rightarrow> bool \<times> nat) \<Rightarrow> string \<Rightarrow> string \<Rightarrow> bool" where
  "accepted m e cur [] = True"
| "accepted m e cur (c # cs) =
     ((if m then (if consonant cur then vowel [c] else consonant [c])
       else (\<exists>i. fst (e i [c])))
      \<and> accepted m e (cur @ [c]) cs)"

text \<open>\<open>String.prototype.startsWith\<close> and \<open>String.prototype.includes\<close>.\<close>

definition startsWith :: "string \<Rightarrow> string \<Rightarrow> bool" where
  "startsWith str sub = (take (length sub) str = sub)"

fun str_includes :: "string \<Rightarrow> string \<Rightarrow> bool" where
  "str_includes [] sub = (sub = [])"
| "str_includes (x # xs) sub = (startsWith (x # xs) sub \<or> str_includes xs sub)"

text \<open>Strings put one after the other with a separator between them.\<close>

fun join :: "string \<Rightarrow> string list \<Rightarrow> string" where
  "join sep [] = []"
| "join sep [x] = x"
| "join sep (x # y # ys) = x @ sep @ join sep (y # ys)"

text \<open>The values of \<open>k\<close> successive draws, in order, and the state after the last.\<close>

fun times :: "nat \<Rightarrow> ('s \<Rightarrow> 'a \<times> 's) \<Rightarrow> 's \<Rightarrow> 'a list \<times> 's" where
  "times 0 f s = ([], s)"
| "times (Suc k) f s = (let r = f s; rs = times k f (snd r) in (fst r # fst rs, snd rs))"

text \<open>The nibbles of a MAC address two by two, each pair as two hexadecimal digits.\<close>

fun hex_pairs :: "nat list \<Rightarrow> string list" where
  "hex_pairs (a # b # ds) = [digit_char a, digit_char b] # hex_pairs ds"
| "hex_pairs ds = []"

text \<open>What the loop of \<open>mac\<close> appends from index \<open>i\<close> on, as a function of its draws.\<close>

fun mac_chars :: "string \<Rightarrow> nat \<Rightarrow> nat list \<Rightarrow> string" where
  "mac_chars sep i [] = []"
| "mac_chars sep i (d # ds) =
     toString16 d @ (if i mod 2 = 1 \<and> i \<noteq> 11 then sep else []) @ mac_chars sep (i + 1) ds"

text \<open>A channel of a colour as two hexadecimal digits.\<close>

definition hex_byte :: "nat \<Rightarrow> string" where
  "hex_byte k = [digit_char (k div 16), digit_char (k mod 16)]"

text \<open>A provider for tests: the state is the list of draws still to come.\<close>

definition canned :: "nat list Faker" where
  "canned =
     \<lparr> datatype_number = (\<lambda>max s. case s of [] \<Rightarrow> (0, []) | x # xs \<Rightarrow> (min x max, xs)),
       random_arrayElement = (\<lambda>xs s. case s of [] \<Rightarrow> (xs ! 0, []) | x # r \<Rightarrow> (xs ! (min x (length xs - 1)), r)),
       helpers_slugify = filter (\<lambda>c. c \<noteq> CHR ''@''),
       name_firstName = (\<lambda>s. (''Ann'', s)),
       name_lastName = (\<lambda>s. (''O'Neil'', s)),
       free_email = [''gmail.com'', ''yahoo.com'', ''hotmail.com''] \<rparr>"

text \<open>
  The sticky pattern \<open>/a/y\<close> on strings of one character: it matches an \<open>a\<close> at
  \<open>lastIndex\<close> 0 and leaves \<open>lastIndex\<close> 1; from \<open>lastIndex\<close> 1 nothing is left to match and
  \<open>lastIndex\<close> goes back to 0.
\<close>

definition sticky_a :: RegExp where
  "sticky_a =
     \<lparr> exec = (\<lambda>i str. if i < length str \<and> str ! i = CHR ''a'' then (True, i + 1) else (False, 0)),
       lastIndex = 0 \<rparr>"

section \<open>Properties of password\<close>

lemma str_match_flagless: "str_match str (flagless p) = (p str, flagless p)"
  by (simp add: str_match_def flagless_def)

lemma exec_str_match: "exec (snd (str_match str re)) = exec re"
  by (simp add: str_match_def)

lemma accepted_memorable_pattern: "accepted True e cur xs = accepted True e' cur xs"
  by (induction xs arbitrary: cur) simp_all

lemma accepted_flagless:
  "accepted False (exec (flagless p)) cur xs \<Longrightarrow> c \<in> set xs \<Longrightarrow> p [c]"
  by (induction xs arbitrary: cur) (auto simp: flagless_def)

lemma accepted_nth:
  "accepted True e cur xs \<Longrightarrow> j < length xs \<Longrightarrow>
     (if consonant (cur @ take j xs) then vowel [xs ! j] else consonant [xs ! j])"
proof (induction xs arbitrary: cur j)
  case Nil
  then show ?case by simp
next
  case (Cons x xs)
  show ?case
  proof (cases j)
    case 0
    with Cons.prems show ?thesis by (auto split: if_splits)
  next
    case (Suc k)
    with Cons.prems have "accepted True e (cur @ [x]) xs" "k < length xs" by simp_all
    from Cons.IH [OF this] show ?thesis by (auto simp: Suc split: if_splits)
  qed
qed

text \<open>
  Whatever \<open>_password\<close> returns is its prefix followed by accepted characters; it passes
  the length test, and the string one character shorter did not, unless nothing was added.
\<close>

lemma password_rec_shape:
  assumes "password_rec F L m p prefix s = Some y"
  shows "\<exists>added. fst y = prefix @ added \<and> accepted m (exec p) prefix added
           \<and> ge_length (length (fst y)) L
           \<and> (added \<noteq> [] \<longrightarrow> \<not> ge_length (length (fst y) - 1) L)"
  using assms
proof (induction rule: password_rec.raw_induct [rotated 1, consumes 1])
  case (1 rec F L m p prefix s y)
  show ?case
  proof (cases "ge_length (length prefix) L")
    case True
    with 1(2) have "y = (prefix, s)" by simp
    with True show ?thesis by simp
  next
    case False
    define p1 where "p1 = (if m then (if fst (str_match prefix (flagless consonant))
                                     then flagless vowel else flagless consonant) else p)"
    define n where "n = fst (datatype_number F 94 s) + 33"
    define s1 where "s1 = snd (datatype_number F 94 s)"
    define ch where "ch = (if m then toLowerCase (fromCharCode n) else fromCharCode n)"
    define res where "res = str_match ch p1"
    have acc: "accepted m (exec (snd res)) cur xs = accepted m (exec p) cur xs" for cur xs
    proof (cases m)
      case True
      then show ?thesis
        using accepted_memorable_pattern [of "exec (snd res)" cur xs "exec p"] by simp
    next
      case False
      then show ?thesis by (simp add: res_def p1_def exec_str_match)
    qed
    have step: "(if \<not> fst res then rec F L m (snd res) prefix s1
                 else rec F L m (snd res) (prefix @ ch) s1) = Some y"
      using 1(2) False by (simp only: Let_def p1_def n_def s1_def ch_def res_def if_False)
    have "\<exists>c. ch = [c]"
      by (simp add: ch_def toLowerCase_def fromCharCode_def)
    then obtain c where ch: "ch = [c]" ..
    show ?thesis
    proof (cases "fst res")
      case False
      with step have "rec F L m (snd res) prefix s1 = Some y" by simp
      from 1(1) [OF this] show ?thesis by (simp add: acc)
    next
      case True
      with step have "rec F L m (snd res) (prefix @ ch) s1 = Some y" by simp
      from 1(1) [OF this] obtain added where
        a: "fst y = (prefix @ ch) @ added" "accepted m (exec p) (prefix @ ch) added"
           "ge_length (length (fst y)) L"
           "added \<noteq> [] \<longrightarrow> \<not> ge_length (length (fst y) - 1) L"
        by (auto simp: acc)
      have now: "if m then (if consonant prefix then vowel [c] else consonant [c])
                 else (\<exists>i. fst (exec p i [c]))"
      proof (cases m)
        case True
        with \<open>fst res\<close> show ?thesis
          by (auto simp: res_def p1_def ch str_match_flagless split: if_splits)
      next
        case False
        with \<open>fst res\<close> have "fst (exec p (lastIndex p) [c])"
          by (simp add: res_def p1_def ch str_match_def)
        with False show ?thesis by auto
      qed
      have "accepted m (exec p) prefix (c # added)"
        using now a(2) by (simp add: ch)
      moreover have "\<not> ge_length (length (fst y) - 1) L"
      proof (cases "added = []")
        case True
        with a(1) \<open>\<not> ge_length (length prefix) L\<close> show ?thesis by (simp add: ch)
      next
        case False
        with a(4) show ?thesis by simp
      qed
      ultimately show ?thesis using a(1,3) by (intro exI [of _ "c # added"]) (simp add: ch)
    qed
  qed
qed

lemma password_rec_exit:
  "ge_length (length prefix) L \<Longrightarrow> password_rec F L m p prefix s = Some (prefix, s)"
  by (subst password_rec.simps) simp

lemma password_rec_memorable_step:
  "password_rec F L True p prefix s =
     (if ge_length (length prefix) L then Some (prefix, s)
      else let pattern1 = (if fst (str_match prefix (flagless consonant))
                           then flagless vowel else flagless consonant);
               char = toLowerCase (fromCharCode (fst (datatype_number F 94 s) + 33));
               s1 = snd (datatype_number F 94 s);
               m = str_match char pattern1
           in if \<not> fst m then password_rec F L True (snd m) prefix s1
              else password_rec F L True (snd m) (prefix @ char) s1)"
  by (subst password_rec.simps) (simp add: Let_def)

lemma password_rec_memorable_pattern:
  "password_rec F L True p prefix s = password_rec F L True q prefix s"
  by (rule trans [OF password_rec_memorable_step password_rec_memorable_step [symmetric]])

lemma finite_length:
  assumes "q \<le> of_nat n" and "added \<noteq> [] \<longrightarrow> \<not> q \<le> of_nat (n - 1)"
    and "n = k + length added"
  shows "int n = max (int k) \<lceil>q :: rat\<rceil>"
proof (cases "added = []")
  case True
  with assms have "q \<le> of_int (int k)" by simp
  then have "\<lceil>q\<rceil> \<le> int k" by (simp only: ceiling_le_iff)
  with True assms(3) show ?thesis by simp
next
  case False
  with assms(3) have pos: "0 < n" "k < n" by simp_all
  from False assms(2) have "of_nat (n - 1) < q" by simp
  with pos have "of_int (int n) - 1 < q" by (simp add: of_nat_diff)
  moreover from assms(1) have "q \<le> of_int (int n)" by simp
  ultimately have "\<lceil>q\<rceil> = int n" by (rule ceiling_unique)
  with pos show ?thesis by simp
qed

text \<open>
  A sticky pattern is matched at its \<open>lastIndex\<close>: after \<open>/a/y\<close> has accepted an \<open>a\<close> it
  rejects the next candidate, whatever it is, and accepts again after that. Two characters
  take three draws.
\<close>

lemma password_sticky_pattern:
  "password canned (Some (Finite 2)) (Some False) (Some sticky_a) None [64, 64, 64, 7]
     = Some (''aa'', [7])"
  by code_simp

text \<open>
  C1, as the code has it. The claim as written bounds the length of every result by \<open>len\<close>
  and puts every character of the result under the constraint. Neither holds for the
  prefix, which is returned as it is: \<open>password(3, false, undefined, "a b c")\<close> returns
  \<open>"a b c"\<close>, five characters with two spaces that \<open>\w\<close> rejects.
\<close>

theorem password_prefix_counterexample:
  "password canned (Some (Finite 3)) (Some False) None (Some ''a b c'') [] = Some (''a b c'', [])
   \<and> (3 :: nat) < length ''a b c'' \<and> \<not> word_pattern '' ''"
  by code_simp

text \<open>
  C1, amended: whenever \<open>password(len, memorable, pattern, prefix)\<close> returns, the result is
  the prefix followed by generated characters, and every generated character met the
  constraint that was active when it was drawn: in memorable mode the vowel class when the
  string before it ends in a consonant and the consonant class otherwise, else a match of
  the pattern (\<open>\w\<close> when omitted), which for a pattern without flags is its test on that
  character. The result passes the length test against the effective length \<open>L\<close>, which is
  \<open>len\<close>, or 15 when \<open>len\<close> is omitted, 0 or NaN: for a finite \<open>L\<close> its length is the larger
  of the prefix length and \<open>L\<close> rounded up, and for \<open>-Infinity\<close> it is the prefix.
\<close>

theorem password_constraint_and_length:
  fixes len :: "number option" and memorable :: "bool option"
    and pattern :: "RegExp option" and prefix :: "string option"
  defines "L \<equiv> (case len of None \<Rightarrow> Finite 15 | Some l \<Rightarrow> if falsy_number l then Finite 15 else l)"
    and "pre \<equiv> (case prefix of None \<Rightarrow> [] | Some x \<Rightarrow> x)"
    and "mem \<equiv> (case memorable of None \<Rightarrow> False | Some m \<Rightarrow> m)"
    and "pat \<equiv> (case pattern of None \<Rightarrow> flagless word_pattern | Some p \<Rightarrow> p)"
  assumes "password F len memorable pattern prefix s = Some (r, s')"
  shows "\<exists>added. r = pre @ added
           \<and> accepted mem (exec pat) pre added
           \<and> (\<forall>p. pat = flagless p \<and> \<not> mem \<longrightarrow> (\<forall>c \<in> set added. p [c]))
           \<and> ge_length (length r) L
           \<and> (\<forall>q. L = Finite q \<longrightarrow> int (length r) = max (int (length pre)) \<lceil>q\<rceil>)
           \<and> (L = NegInfinity \<longrightarrow> r = pre)"
proof -
  from assms have "password_rec F L mem pat pre s = Some (r, s')"
    by (simp add: password_def)
  from password_rec_shape [OF this] obtain added where
    a: "r = pre @ added" "accepted mem (exec pat) pre added" "ge_length (length r) L"
       "added \<noteq> [] \<longrightarrow> \<not> ge_length (length r - 1) L"
    by auto
  have fl: "\<forall>p. pat = flagless p \<and> \<not> mem \<longrightarrow> (\<forall>c \<in> set added. p [c])"
    using a(2) by (auto dest: accepted_flagless)
  have fin: "\<forall>q. L = Finite q \<longrightarrow> int (length r) = max (int (length pre)) \<lceil>q\<rceil>"
  proof (intro allI impI)
    fix q assume q: "L = Finite q"
    from a(3,4) q have "q \<le> of_nat (length r)" "added \<noteq> [] \<longrightarrow> \<not> q \<le> of_nat (length r - 1)"
      by simp_all
    moreover from a(1) have "length r = length pre + length added" by simp
    ultimately show "int (length r) = max (int (length pre)) \<lceil>q\<rceil>" by (rule finite_length)
  qed
  have neg: "L = NegInfinity \<longrightarrow> r = pre"
    using a(1,4) by auto
  from a(1,2,3) fl fin neg show ?thesis by blast
qed

theorem password_constraint_and_length_witness:
  "password canned (Some (Finite (5 / 2))) (Some True) None None [0, 65, 64, 65, 7]
     = Some (''bab'', [7])
   \<and> accepted True (exec (flagless word_pattern)) [] ''bab''
   \<and> ge_length (length ''bab'') (Finite (5 / 2))
   \<and> int (length ''bab'') = max (int (length ([] :: string))) \<lceil>5 / 2 :: rat\<rceil>"
proof -
  have run: "password canned (Some (Finite (5 / 2))) (Some True) None None [0, 65, 64, 65, 7]
     = Some (''bab'', [7])"
    by code_simp
  have nf: "\<not> falsy_number (Finite (5 / 2))" by (simp add: falsy_number_def)
  from password_constraint_and_length [OF run] obtain added where
    a: "''bab'' = [] @ added" "accepted True (exec (flagless word_pattern)) [] added"
       "ge_length (length ''bab'') (Finite (5 / 2))"
       "\<forall>q. Finite (5 / 2) = Finite q \<longrightarrow> int (length ''bab'') = max (int (length ([] :: string))) \<lceil>q\<rceil>"
    unfolding option.case if_not_P [OF nf] by blast
  from a(1) have added: "added = ''bab''" by simp
  from a(4) have "int (length ''bab'') = max (int (length ([] :: string))) \<lceil>5 / 2 :: rat\<rceil>"
    by blast
  with run a(2) a(3) show ?thesis unfolding added by (intro conjI)
qed

text \<open>
  C2: every candidate is sampled as \<open>number(94) + 33\<close> and should lie in \<open>[33, 127)\<close>, the
  94 printable characters from \<open>!\<close> to \<open>~\<close>. The provider's bound is inclusive, so the draw 94
  gives the code 127 (DEL), one past that range, and a pattern that matches it lets it into
  the password.
\<close>

theorem password_samples_code_127:
  "fst (datatype_number canned 94 [94]) + 33 = 127
   \<and> password canned (Some (Finite 1)) (Some False) (Some (flagless (\<lambda>c. True))) None [94]
       = Some ([char_of (127 :: nat)], [])"
  by code_simp

text \<open>
  C3: in memorable mode the constraint on the next character is fixed by the last character
  of the prefix built so far and by nothing else. The pattern the caller passed does not
  change the result; every character the generator appends is a vowel when the prefix
  before it ends in a consonant and a consonant otherwise (also after an empty prefix); and
  the consonant test on a prefix is the consonant test on its last character.
\<close>

theorem memorable_constraint_from_last_char:
  fixes len :: "number option" and prefix :: "string option" and p1 p2 :: "RegExp option"
  defines "pre \<equiv> (case prefix of None \<Rightarrow> [] | Some x \<Rightarrow> x)"
  shows "password F len (Some True) p1 prefix s = password F len (Some True) p2 prefix s
       \<and> (password F len (Some True) p1 prefix s = Some (r, s') \<longrightarrow>
            (\<forall>i. length pre \<le> i \<and> i < length r \<longrightarrow>
               (if consonant (take i r) then vowel [r ! i] else consonant [r ! i])))
       \<and> (\<forall>cur. consonant cur = (cur \<noteq> [] \<and> consonant [last cur]))"
proof (intro conjI impI allI)
  show "password F len (Some True) p1 prefix s = password F len (Some True) p2 prefix s"
    unfolding password_def Let_def option.case by (rule password_rec_memorable_pattern)
next
  fix i
  assume run: "password F len (Some True) p1 prefix s = Some (r, s')"
    and i: "length pre \<le> i \<and> i < length r"
  define L where "L = (case len of None \<Rightarrow> Finite 15
                       | Some l \<Rightarrow> if falsy_number l then Finite 15 else l)"
  define pat where "pat = (case p1 of None \<Rightarrow> flagless word_pattern | Some p \<Rightarrow> p)"
  from run have "password_rec F L True pat pre s = Some (r, s')"
    by (simp add: password_def L_def pat_def pre_def)
  from password_rec_shape [OF this] obtain added where
    a: "r = pre @ added" "accepted True (exec pat) pre added" by auto
  from i a(1) have j: "i - length pre < length added" by auto
  from accepted_nth [OF a(2) j]
  have "if consonant (pre @ take (i - length pre) added) then vowel [added ! (i - length pre)]
        else consonant [added ! (i - length pre)]" .
  moreover from i a(1) have "take i r = pre @ take (i - length pre) added" by simp
  moreover from i a(1) have "r ! i = added ! (i - length pre)" by (simp add: nth_append)
  ultimately show "if consonant (take i r) then vowel [r ! i] else consonant [r ! i]"
    by (simp split: if_splits)
next
  fix cur
  show "consonant cur = (cur \<noteq> [] \<and> consonant [last cur])"
    by (simp add: consonant_def)
qed

theorem memorable_constraint_from_last_char_witness:
  "password canned (Some (Finite 3)) (Some True) (Some (flagless (\<lambda>c. False))) None [0, 65, 64, 65, 7]
     = password canned (Some (Finite 3)) (Some True) None None [0, 65, 64, 65, 7]
   \<and> password canned (Some (Finite 3)) (Some True) (Some (flagless (\<lambda>c. False))) None [0, 65, 64, 65, 7]
     = Some (''bab'', [7])
   \<and> \<not> consonant (take 0 ''bab'') \<and> consonant [''bab'' ! 0]
   \<and> consonant (take 1 ''bab'') \<and> vowel [''bab'' ! 1]
   \<and> \<not> consonant (take 2 ''bab'') \<and> consonant [''bab'' ! 2]"
proof -
  have run: "password canned (Some (Finite 3)) (Some True) (Some (flagless (\<lambda>c. False))) None
       [0, 65, 64, 65, 7] = Some (''bab'', [7])"
    by code_simp
  have c: "\<not> consonant (take 0 ''bab'')" "consonant (take 1 ''bab'')" "\<not> consonant (take 2 ''bab'')"
    by (simp_all add: consonant_def)
  note t = memorable_constraint_from_last_char
    [of canned "Some (Finite 3)" "Some (flagless (\<lambda>c. False))" None "[0, 65, 64, 65, 7]" None
        "''bab''" "[7]"]
  note eq = t [THEN conjunct1]
  note all = mp [OF t [THEN conjunct2, THEN conjunct1] run]
  have r: "length ([] :: string) \<le> 0 \<and> 0 < length ''bab''"
    "length ([] :: string) \<le> 1 \<and> 1 < length ''bab''"
    "length ([] :: string) \<le> 2 \<and> 2 < length ''bab''" by simp_all
  from all [unfolded option.case, rule_format, OF r(1)] c(1) have "consonant [''bab'' ! 0]" by simp
  moreover from all [unfolded option.case, rule_format, OF r(2)] c(2) have "vowel [''bab'' ! 1]" by simp
  moreover from all [unfolded option.case, rule_format, OF r(3)] c(3) have "consonant [''bab'' ! 2]" by simp
  ultimately show ?thesis using eq run c by blast
qed

text \<open>
  C4, as the code has it. \<open>len || 15\<close> replaces a requested length of 0 by 15, so a prefix
  at least as long as the requested length 0 is not returned unchanged:
  \<open>password(0, false, undefined, "ab")\<close> goes on to fifteen characters.
\<close>

theorem password_zero_length_counterexample:
  "ge_length (length ''ab'') (Finite 0)
   \<and> password canned (Some (Finite 0)) (Some False) None (Some ''ab'')
        [64, 64, 64, 64, 64, 64, 64, 64, 64, 64, 64, 64, 64]
      = Some (''abaaaaaaaaaaaaa'', [])"
  by code_simp

text \<open>
  C4, amended: for every prefix whose length is at least the effective length (\<open>len\<close>, or 15
  when \<open>len\<close> is omitted, 0 or NaN), \<open>password\<close> returns the prefix unchanged and draws
  nothing; in particular \<open>password(5, false, undefined, "abcdef")\<close> returns \<open>"abcdef"\<close>. This
  is the only exit: every returned string passes the length test, and it is the prefix
  exactly when the prefix passed it.
\<close>

theorem password_returns_long_prefix:
  fixes len :: "number option" and prefix :: "string option"
  defines "L \<equiv> (case len of None \<Rightarrow> Finite 15 | Some l \<Rightarrow> if falsy_number l then Finite 15 else l)"
    and "pre \<equiv> (case prefix of None \<Rightarrow> [] | Some x \<Rightarrow> x)"
  shows "(ge_length (length pre) L \<longrightarrow> password F len memorable pattern prefix s = Some (pre, s))
       \<and> password F (Some (Finite 5)) (Some False) None (Some ''abcdef'') s = Some (''abcdef'', s)
       \<and> (password F len memorable pattern prefix s = Some (r, s') \<longrightarrow>
            ge_length (length r) L \<and> (r = pre \<longleftrightarrow> ge_length (length pre) L))"
proof (intro conjI impI)
  show "password F len memorable pattern prefix s = Some (pre, s)" if "ge_length (length pre) L"
    using that by (simp add: password_def L_def pre_def password_rec_exit)
  show "password F (Some (Finite 5)) (Some False) None (Some ''abcdef'') s = Some (''abcdef'', s)"
    by (simp add: password_def password_rec_exit falsy_number_def)
next
  assume run: "password F len memorable pattern prefix s = Some (r, s')"
  define mem where "mem = (case memorable of None \<Rightarrow> False | Some m \<Rightarrow> m)"
  define pat where "pat = (case pattern of None \<Rightarrow> flagless word_pattern | Some p \<Rightarrow> p)"
  from run have rec: "password_rec F L mem pat pre s = Some (r, s')"
    by (simp add: password_def L_def pat_def pre_def mem_def)
  from password_rec_shape [OF rec] obtain added where
    a: "r = pre @ added" "ge_length (length r) L"
       "added \<noteq> [] \<longrightarrow> \<not> ge_length (length r - 1) L" by auto
  from a(2) show "ge_length (length r) L" .
  show "r = pre \<longleftrightarrow> ge_length (length pre) L"
  proof
    assume "r = pre"
    with a(2) show "ge_length (length pre) L" by simp
  next
    assume "ge_length (length pre) L"
    from password_rec_exit [OF this, of F mem pat s] rec show "r = pre" by simp
  qed
qed

theorem password_returns_long_prefix_witness:
  "ge_length (length ''abcdef'') (Finite 5)
   \<and> password canned (Some (Finite 5)) (Some False) None (Some ''abcdef'') [7] = Some (''abcdef'', [7])"
  using password_returns_long_prefix [where len = "Some (Finite 5)" and prefix = "Some ''abcdef''"
      and F = canned and memorable = "Some False" and pattern = None and s = "[7]"]
  by (simp add: falsy_number_def)

section \<open>Properties of userName and email\<close>

text \<open>The provider for tests keeps the contract.\<close>

lemma canned_number_bounded: "number_bounded canned"
  by (simp add: number_bounded_def canned_def split: list.split)

lemma canned_arrayElement_member: "arrayElement_member canned"
proof -
  have "xs ! min x (length xs - 1) \<in> set xs" if "xs \<noteq> []" for xs :: "string list" and x
    using that by (intro nth_mem) (cases xs, simp_all add: min_def)
  moreover have "xs ! 0 \<in> set xs" if "xs \<noteq> []" for xs :: "string list"
    using that by (cases xs) simp_all
  ultimately show ?thesis
    by (simp add: arrayElement_member_def canned_def split: list.split)
qed

lemma digit_char_decimal: "d < 10 \<Longrightarrow> digit_char d \<in> set ''0123456789''"
proof -
  assume "d < 10"
  then have "d \<in> {0, 1, 2, 3, 4, 5, 6, 7, 8, 9}" by auto
  then show ?thesis by (auto simp: digit_char_def)
qed

lemma toString10_digits: "set (toString10 n) \<subseteq> set ''0123456789''"
proof (induction n rule: toString10.induct)
  case (1 n)
  show ?case
  proof (cases "n < 10")
    case True
    then show ?thesis using digit_char_decimal [of n] by (subst toString10.simps) simp
  next
    case False
    have "n mod 10 < 10" by simp
    from digit_char_decimal [OF this] 1 [OF False] False show ?thesis
      by (subst toString10.simps) simp
  qed
qed

lemma strip_quote_space_id:
  "CHR 0x27 \<notin> set r \<Longrightarrow> CHR '' '' \<notin> set r \<Longrightarrow> strip_quote_space r = r"
  by (auto simp: strip_quote_space_def filter_id_conv)

lemma strip_quote_space_clean:
  "CHR 0x27 \<notin> set (strip_quote_space r) \<and> CHR '' '' \<notin> set (strip_quote_space r)"
  by (simp add: strip_quote_space_def)

lemma toString10_clean: "CHR 0x27 \<notin> set (toString10 d) \<and> CHR '' '' \<notin> set (toString10 d)"
  using toString10_digits [of d] by auto

lemma startsWith_append: "startsWith (sub @ b) sub"
  by (simp add: startsWith_def)

lemma str_includes_startsWith: "startsWith r sub \<Longrightarrow> str_includes r sub"
  by (cases r) (simp_all add: startsWith_def)

lemma str_includes_append: "str_includes (a @ sub @ b) sub"
proof (induction a)
  case Nil
  show ?case using str_includes_startsWith [OF startsWith_append] by simp
next
  case (Cons x a)
  then show ?case by simp
qed

text \<open>
  C5, as the code has it. The first template is the first name and a number only:
  when the switch draws 0, \<open>userName("Jeanne", "Doe")\<close> is \<open>"Jeanne98"\<close>, as in the example
  of the source's documentation, and does not contain \<open>"Doe"\<close>.
\<close>

theorem userName_first_template_counterexample:
  "userName canned (Some ''Jeanne'') (Some ''Doe'') [0, 98] = Inr (''Jeanne98'', [])
   \<and> \<not> str_includes ''Jeanne98'' ''Doe''"
  by code_simp

text \<open>
  C5, amended: on a provider that keeps its contract, \<open>userName("Jeanne", "Doe")\<close> returns
  one of the three templates, chosen by the draw \<open>number(2)\<close>: \<open>"Jeanne" + d\<close>,
  \<open>"Jeanne" + sep + "Doe"\<close> or \<open>"Jeanne" + sep + "Doe" + d\<close>, with \<open>sep\<close> a dot or an
  underscore and \<open>d\<close> the decimal form of a number up to 99. The result always contains
  \<open>"Jeanne"\<close>, contains \<open>"Doe"\<close> unless the first template was drawn, and never contains an
  apostrophe or a space.
\<close>

theorem userName_templates:
  assumes "number_bounded F" and "arrayElement_member F"
  shows "\<exists>r s' sep d. userName F (Some ''Jeanne'') (Some ''Doe'') s = Inr (r, s')
           \<and> sep \<in> {''.'', ''_''} \<and> d \<le> 99
           \<and> ((fst (datatype_number F 2 s) = 0 \<and> r = ''Jeanne'' @ toString10 d)
              \<or> (fst (datatype_number F 2 s) = 1 \<and> r = ''Jeanne'' @ sep @ ''Doe'')
              \<or> (fst (datatype_number F 2 s) = 2 \<and> r = ''Jeanne'' @ sep @ ''Doe'' @ toString10 d))
           \<and> str_includes r ''Jeanne''
           \<and> (fst (datatype_number F 2 s) \<noteq> 0 \<longrightarrow> str_includes r ''Doe'')
           \<and> CHR 0x27 \<notin> set r \<and> CHR '' '' \<notin> set r"
proof -
  obtain k s3 where k: "datatype_number F 2 s = (k, s3)" by (cases "datatype_number F 2 s")
  with assms(1) have k2: "k \<le> 2" by (metis fst_conv number_bounded_def)
  have names: "or_else (Some ''Jeanne'') (name_firstName F) s = (''Jeanne'', s)"
    "or_else (Some ''Doe'') (name_lastName F) s = (''Doe'', s)"
    by (simp_all add: or_else_def falsy_def)
  have sep_ok: "fst (random_arrayElement F [''.'', ''_''] t) \<in> {''.'', ''_''}" for t
    using assms(2) [unfolded arrayElement_member_def, rule_format, of "[''.'', ''_'']" t] by simp
  have d_ok: "fst (datatype_number F 99 t) \<le> 99" for t
    using assms(1) by (simp add: number_bounded_def)
  have sep_clean: "CHR 0x27 \<notin> set x \<and> CHR '' '' \<notin> set x" if "x \<in> {''.'', ''_''}" for x
    using that by auto
  consider "k = 0" | "k = 1" | "k = 2" using k2 by linarith
  then show ?thesis
  proof cases
    case 1
    obtain d s4 where d: "datatype_number F 99 s3 = (d, s4)" by (cases "datatype_number F 99 s3")
    with d_ok [of s3] have d99: "d \<le> 99" by simp
    have clean: "CHR 0x27 \<notin> set (''Jeanne'' @ toString10 d) \<and> CHR '' '' \<notin> set (''Jeanne'' @ toString10 d)"
      using toString10_clean [of d] by simp
    have run: "userName F (Some ''Jeanne'') (Some ''Doe'') s = Inr (''Jeanne'' @ toString10 d, s4)"
      using clean by (simp add: userName_def names k 1 d strip_quote_space_id del: append.simps)
    have inc: "str_includes (''Jeanne'' @ toString10 d) ''Jeanne''"
      using str_includes_append [of "[]" "''Jeanne''" "toString10 d"] by simp
    show ?thesis
      apply (rule exI [of _ "''Jeanne'' @ toString10 d"], rule exI [of _ s4])
      apply (rule exI [of _ "''.''"], rule exI [of _ d])
      using run d99 inc clean by (simp add: k 1 del: append.simps)
  next
    case 2
    obtain sep s4 where sep: "random_arrayElement F [''.'', ''_''] s3 = (sep, s4)"
      by (cases "random_arrayElement F [''.'', ''_''] s3")
    with sep_ok [of s3] have sep2: "sep \<in> {''.'', ''_''}" by simp
    have clean: "CHR 0x27 \<notin> set (''Jeanne'' @ sep @ ''Doe'') \<and> CHR '' '' \<notin> set (''Jeanne'' @ sep @ ''Doe'')"
      using sep_clean [OF sep2] by simp
    have run: "userName F (Some ''Jeanne'') (Some ''Doe'') s = Inr (''Jeanne'' @ sep @ ''Doe'', s4)"
      using clean by (simp add: userName_def names k 2 sep strip_quote_space_id del: append.simps)
    have inc: "str_includes (''Jeanne'' @ sep @ ''Doe'') ''Jeanne''"
      using str_includes_append [of "[]" "''Jeanne''" "sep @ ''Doe''"] by simp
    have inc2: "str_includes (''Jeanne'' @ sep @ ''Doe'') ''Doe''"
      using str_includes_append [of "''Jeanne'' @ sep" "''Doe''" "[]"] by simp
    show ?thesis
      apply (rule exI [of _ "''Jeanne'' @ sep @ ''Doe''"], rule exI [of _ s4])
      apply (rule exI [of _ sep], rule exI [of _ 0])
      using run sep2 inc inc2 clean by (simp add: k 2 del: append.simps)
  next
    case 3
    obtain sep s4 where sep: "random_arrayElement F [''.'', ''_''] s3 = (sep, s4)"
      by (cases "random_arrayElement F [''.'', ''_''] s3")
    with sep_ok [of s3] have sep2: "sep \<in> {''.'', ''_''}" by simp
    obtain d s5 where d: "datatype_number F 99 s4 = (d, s5)" by (cases "datatype_number F 99 s4")
    with d_ok [of s4] have d99: "d \<le> 99" by simp
    have clean: "CHR 0x27 \<notin> set (''Jeanne'' @ sep @ ''Doe'' @ toString10 d)
        \<and> CHR '' '' \<notin> set (''Jeanne'' @ sep @ ''Doe'' @ toString10 d)"
      using sep_clean [OF sep2] toString10_clean [of d] by simp
    have run: "userName F (Some ''Jeanne'') (Some ''Doe'') s
        = Inr (''Jeanne'' @ sep @ ''Doe'' @ toString10 d, s5)"
      using clean by (simp add: userName_def names k 3 sep d strip_quote_space_id del: append.simps)
    have inc: "str_includes (''Jeanne'' @ sep @ ''Doe'' @ toString10 d) ''Jeanne''"
      using str_includes_append [of "[]" "''Jeanne''" "sep @ ''Doe'' @ toString10 d"] by simp
    have inc2: "str_includes (''Jeanne'' @ sep @ ''Doe'' @ toString10 d) ''Doe''"
      using str_includes_append [of "''Jeanne'' @ sep" "''Doe''" "toString10 d"] by simp
    show ?thesis
      apply (rule exI [of _ "''Jeanne'' @ sep @ ''Doe'' @ toString10 d"], rule exI [of _ s5])
      apply (rule exI [of _ sep], rule exI [of _ d])
      using run sep2 d99 inc inc2 clean by (simp add: k 3 del: append.simps)
  qed
qed


theorem userName_templates_witness:
  "number_bounded canned \<and> arrayElement_member canned
   \<and> userName canned (Some ''Jeanne'') (Some ''Doe'') [2, 0, 5] = Inr (''Jeanne.Doe5'', [])
   \<and> fst (datatype_number canned 2 [2, 0, 5]) = 2
   \<and> str_includes ''Jeanne.Doe5'' ''Jeanne'' \<and> str_includes ''Jeanne.Doe5'' ''Doe''
   \<and> CHR 0x27 \<notin> set ''Jeanne.Doe5'' \<and> CHR '' '' \<notin> set ''Jeanne.Doe5''"
proof -
  have run: "userName canned (Some ''Jeanne'') (Some ''Doe'') [2, 0, 5] = Inr (''Jeanne.Doe5'', [])"
    by code_simp
  have k: "fst (datatype_number canned 2 [2, 0, 5]) = 2"
    by code_simp
  from userName_templates [OF canned_number_bounded canned_arrayElement_member, of "[2, 0, 5]"]
  obtain r s' where h: "userName canned (Some ''Jeanne'') (Some ''Doe'') [2, 0, 5] = Inr (r, s')"
    "str_includes r ''Jeanne''"
    "fst (datatype_number canned 2 [2, 0, 5]) \<noteq> 0 \<longrightarrow> str_includes r ''Doe''"
    "CHR 0x27 \<notin> set r" "CHR '' '' \<notin> set r"
    by blast
  from h(1) have r: "r = ''Jeanne.Doe5''" unfolding run by simp
  from h(3) have doe: "str_includes r ''Doe''" unfolding k by simp
  from canned_number_bounded canned_arrayElement_member run k h(2) doe h(4) h(5)
  show ?thesis unfolding r by (intro conjI)
qed

text \<open>
  C6: from every provider state, \<open>email("Jeanne", "Doe", "example.fakerjs.dev")\<close> is the
  slugified result of \<open>userName("Jeanne", "Doe")\<close> from that same state followed by
  \<open>"@example.fakerjs.dev"\<close>, with the state \<open>userName\<close> leaves; where \<open>userName\<close> raises,
  so does \<open>email\<close>.
\<close>

theorem email_is_slug_of_userName:
  "email F (Some ''Jeanne'') (Some ''Doe'') (Some ''example.fakerjs.dev'') s =
     map_sum id (\<lambda>(u, s'). (helpers_slugify F u @ ''@example.fakerjs.dev'', s'))
       (userName F (Some ''Jeanne'') (Some ''Doe'') s)"
  by (simp add: email_def or_else_def falsy_def split: sum.split prod.split)

theorem email_is_slug_of_userName_witness:
  "email canned (Some ''Jeanne'') (Some ''Doe'') (Some ''example.fakerjs.dev'') [2, 0, 5] =
     Inr (''Jeanne.Doe5@example.fakerjs.dev'', [])"
proof -
  have run: "userName canned (Some ''Jeanne'') (Some ''Doe'') [2, 0, 5] = Inr (''Jeanne.Doe5'', [])"
    by code_simp
  have slug: "helpers_slugify canned ''Jeanne.Doe5'' = ''Jeanne.Doe5''"
    by code_simp
  show ?thesis
    unfolding email_is_slug_of_userName [of canned "[2, 0, 5]"] run using slug by simp
qed

text \<open>
  C9, as the code has it. The provider drawn for an empty argument is whatever the
  \<open>free_email\<close> list holds, also an empty string: with the list \<open>['']\<close> the contract of
  \<open>arrayElement\<close> is kept and \<open>email("Jeanne", "Doe", "")\<close> ends in \<open>@\<close> with nothing
  after it.
\<close>

theorem email_empty_list_entry_counterexample:
  "arrayElement_member (canned\<lparr>free_email := [[]]\<rparr>)
   \<and> free_email (canned\<lparr>free_email := [[]]\<rparr>) = [[]]
   \<and> email (canned\<lparr>free_email := [[]]\<rparr>) (Some ''Jeanne'') (Some ''Doe'') (Some []) [0, 2, 0, 5]
       = Inr (''Jeanne.Doe5@'', [])"
proof -
  have "arrayElement_member (canned\<lparr>free_email := [[]]\<rparr>)"
    using canned_arrayElement_member by (simp add: arrayElement_member_def)
  moreover have "free_email (canned\<lparr>free_email := [[]]\<rparr>) = [[]]"
    by simp
  moreover have "email (canned\<lparr>free_email := [[]]\<rparr>) (Some ''Jeanne'') (Some ''Doe'') (Some [])
      [0, 2, 0, 5] = Inr (''Jeanne.Doe5@'', [])"
    by code_simp
  ultimately show ?thesis by (intro conjI)
qed

text \<open>
  C9, amended: an empty string passed as provider is falsy, so on a provider that keeps the
  contract of \<open>arrayElement\<close> and with a \<open>free_email\<close> list that is not empty,
  \<open>email(firstName, lastName, "")\<close> draws the provider from that list, before the user name
  is generated, exactly as when the argument is omitted. The part after the \<open>@\<close> is that
  element of the list; it is not the empty string provided the list holds no empty string.
\<close>

theorem email_empty_provider_uses_free_email:
  assumes "arrayElement_member F" and "free_email F \<noteq> []"
  shows "\<exists>p s1. random_arrayElement F (free_email F) s = (p, s1) \<and> p \<in> set (free_email F)
           \<and> email F firstName lastName (Some []) s =
               (case userName F firstName lastName s1 of
                  Inl e \<Rightarrow> Inl e
                | Inr (u, s2) \<Rightarrow> Inr (helpers_slugify F u @ ''@'' @ p, s2))
           \<and> ([] \<notin> set (free_email F) \<longrightarrow> p \<noteq> [])
           \<and> email F firstName lastName (Some []) s = email F firstName lastName None s"
proof -
  obtain p s1 where p: "random_arrayElement F (free_email F) s = (p, s1)"
    by (cases "random_arrayElement F (free_email F) s")
  with assms have mem: "p \<in> set (free_email F)"
    by (metis arrayElement_member_def fst_conv)
  have "email F firstName lastName (Some []) s =
               (case userName F firstName lastName s1 of
                  Inl e \<Rightarrow> Inl e
                | Inr (u, s2) \<Rightarrow> Inr (helpers_slugify F u @ ''@'' @ p, s2))"
    by (simp add: email_def or_else_def falsy_def p)
  moreover have "email F firstName lastName (Some []) s = email F firstName lastName None s"
    by (simp add: email_def or_else_def falsy_def)
  moreover from mem have "[] \<notin> set (free_email F) \<longrightarrow> p \<noteq> []" by auto
  ultimately show ?thesis using p mem by blast
qed

theorem email_empty_provider_uses_free_email_witness:
  "arrayElement_member canned \<and> free_email canned \<noteq> []
   \<and> random_arrayElement canned (free_email canned) [1, 2, 0, 5] = (''yahoo.com'', [2, 0, 5])
   \<and> ''yahoo.com'' \<in> set (free_email canned)
   \<and> email canned (Some ''Jeanne'') (Some ''Doe'') (Some []) [1, 2, 0, 5]
       = Inr (''Jeanne.Doe5@yahoo.com'', [])"
proof -
  have ne: "free_email canned \<noteq> []" by (simp add: canned_def)
  have draw: "random_arrayElement canned (free_email canned) [1, 2, 0, 5] = (''yahoo.com'', [2, 0, 5])"
    by code_simp
  have run: "userName canned (Some ''Jeanne'') (Some ''Doe'') [2, 0, 5] = Inr (''Jeanne.Doe5'', [])"
    by code_simp
  have slug: "helpers_slugify canned ''Jeanne.Doe5'' = ''Jeanne.Doe5''"
    by code_simp
  from email_empty_provider_uses_free_email [OF canned_arrayElement_member ne,
      of "[1, 2, 0, 5]" "Some ''Jeanne''" "Some ''Doe''"]
  have "''yahoo.com'' \<in> set (free_email canned)
     \<and> email canned (Some ''Jeanne'') (Some ''Doe'') (Some []) [1, 2, 0, 5]
       = Inr (''Jeanne.Doe5@yahoo.com'', [])"
    unfolding draw using run slug by auto
  with canned_arrayElement_member ne draw show ?thesis by blast
qed

section \<open>Properties of mac and color\<close>

lemma toString16_nibble: "d < 16 \<Longrightarrow> toString16 d = [digit_char d]"
  by (subst toString16.simps) simp

lemma times_length: "length (fst (times k f s)) = k"
  by (induction k arbitrary: s) (simp_all add: Let_def)

lemma times_all: "(\<And>t. P (fst (f t))) \<Longrightarrow> x \<in> set (fst (times k f s)) \<Longrightarrow> P x"
  by (induction k arbitrary: s) (auto simp: Let_def)

lemma mac_loop_draws:
  "mac_loop F sep i acc s =
     (acc @ mac_chars sep i (fst (times (12 - i) (datatype_number F 15) s)),
      snd (times (12 - i) (datatype_number F 15) s))"
proof (induction F sep i acc s rule: mac_loop.induct)
  case (1 F sep i acc s)
  show ?case
  proof (cases "i < 12")
    case False
    then show ?thesis by (subst mac_loop.simps) simp
  next
    case True
    then have k: "12 - i = Suc (12 - (i + 1))" by simp
    have t: "times (12 - i) f s =
               (let r = f s; rs = times (12 - (i + 1)) f (snd r) in (fst r # fst rs, snd rs))"
      for f :: "'a \<Rightarrow> nat \<times> 'a"
      by (subst k) simp
    define mac1 where "mac1 = acc @ toString16 (fst (datatype_number F 15 s))"
    define s1 where "s1 = snd (datatype_number F 15 s)"
    define mac2 where "mac2 = (if i mod 2 = 1 \<and> i \<noteq> 11 then mac1 @ sep else mac1)"
    have step: "mac_loop F sep i acc s = mac_loop F sep (i + 1) mac2 s1"
      by (subst mac_loop.simps) (simp add: True Let_def mac1_def s1_def mac2_def)
    have ih: "mac_loop F sep (i + 1) mac2 s1 =
        (mac2 @ mac_chars sep (i + 1) (fst (times (12 - (i + 1)) (datatype_number F 15) s1)),
         snd (times (12 - (i + 1)) (datatype_number F 15) s1))"
      unfolding mac1_def s1_def mac2_def by (rule 1 [OF True refl refl refl])
    show ?thesis
      unfolding step ih t by (simp add: Let_def mac2_def mac1_def s1_def)
  qed
qed

lemma odd_draws_impossible: "even (i :: nat) \<Longrightarrow> length [v] = 12 - i \<Longrightarrow> P"
proof -
  assume e: "even i" and "length [v] = 12 - i"
  then have "i = 11" by simp
  with e show P by simp
qed

lemma mac_chars_pairs:
  "even i \<Longrightarrow> length ds = 12 - i \<Longrightarrow> \<forall>d \<in> set ds. d < 16 \<Longrightarrow>
     mac_chars sep i ds = join sep (hex_pairs ds)"
proof (induction ds arbitrary: i rule: hex_pairs.induct)
  case (1 a b ds)
  from 1(2,3) have i: "i + 2 \<le> 12" "even (i + 2)" "length ds = 12 - (i + 2)" by auto
  from 1(4) have ab: "a < 16" "b < 16" "\<forall>d \<in> set ds. d < 16" by auto
  note ih = 1(1) [OF i(2) i(3) ab(3)]
  from 1(2) have par: "i mod 2 = 0" "Suc i mod 2 = Suc 0"
    by (auto simp: even_iff_mod_2_eq_zero mod_Suc)
  show ?case
  proof (cases "i = 10")
    case True
    with i(3) have "ds = []" by simp
    with True ab show ?thesis by (simp add: toString16_nibble)
  next
    case False
    with i 1(2) have "2 \<le> length ds" by (auto elim!: evenE)
    then obtain x y r where ds: "ds = x # y # r"
      by (cases ds; cases "tl ds") auto
    have j: "join sep (hex_pairs (a # b # ds))
        = [digit_char a, digit_char b] @ sep @ join sep (hex_pairs ds)"
      by (simp add: ds)
    have m: "mac_chars sep i (a # b # ds)
        = [digit_char a, digit_char b] @ sep @ mac_chars sep (i + 2) ds"
      using False par ab(1,2) by (simp add: toString16_nibble)
    show ?thesis by (simp only: j m ih)
  qed
qed (simp, erule (1) odd_draws_impossible)

lemma digit_char_hex: "digit_char d \<in> set ''0123456789abcdef''"
  unfolding digit_char_def by (rule nth_mem) simp

lemma pad2_toString16:
  assumes "k < 256"
  shows "pad2 (int_toString16 (int k)) = hex_byte k"
proof (cases "k < 16")
  case True
  then show ?thesis
    by (simp add: pad2_def int_toString16_def hex_byte_def toString16_nibble digit_char_def)
next
  case False
  from assms have "k div 16 < 16" by simp
  from toString16_nibble [OF this] False
  have "toString16 k = [digit_char (k div 16), digit_char (k mod 16)]"
    by (subst toString16.simps) simp
  then show ?thesis by (simp add: pad2_def int_toString16_def hex_byte_def)
qed

text \<open>
  C7: a separator other than \<open>':'\<close>, \<open>'-'\<close> and \<open>''\<close> (for example \<open>';'\<close>) is replaced by the
  default: from the same provider state \<open>mac(sep)\<close> returns what \<open>mac(':')\<close> returns. On a
  provider that keeps its contract the output is made of twelve draws of \<open>number(15)\<close>, each
  written as one hexadecimal digit, taken two by two and joined by the colon, so that the
  separator follows every second digit but the last.
\<close>

theorem mac_invalid_separator_falls_back:
  assumes "sep \<notin> {'':'', ''-'', ''''}" and "number_bounded F"
  shows "mac F (Some sep) s = mac F (Some '':'') s
       \<and> (\<exists>ds s'. times 12 (datatype_number F 15) s = (ds, s')
             \<and> length ds = 12 \<and> (\<forall>d \<in> set ds. d \<le> 15)
             \<and> mac F (Some sep) s = (join '':'' (hex_pairs ds), s'))"
proof -
  obtain ds s' where t: "times 12 (datatype_number F 15) s = (ds, s')"
    by (cases "times 12 (datatype_number F 15) s")
  have len: "length ds = 12"
    using times_length [of 12 "datatype_number F 15" s] by (simp add: t)
  have b: "fst (datatype_number F 15 t) \<le> 15" for t
    using assms(2) by (simp add: number_bounded_def)
  have bound: "\<forall>d \<in> set ds. d \<le> 15"
    using times_all [of "\<lambda>d. d \<le> 15" "datatype_number F 15" _ 12 s, OF b] by (simp add: t)
  then have lt: "\<forall>d \<in> set ds. d < 16" by auto
  have same: "mac F (Some sep) s = mac F (Some '':'') s"
    using assms(1) by (simp add: mac_def)
  have "mac F (Some '':'') s = (mac_chars '':'' 0 ds, s')"
    using mac_loop_draws [of F "'':''" 0 "[]" s] by (simp add: mac_def t)
  also have "mac_chars '':'' 0 ds = join '':'' (hex_pairs ds)"
    using mac_chars_pairs [of 0 ds "'':''"] len lt by simp
  finally have "mac F (Some sep) s = (join '':'' (hex_pairs ds), s')"
    using same by simp
  with same t len bound show ?thesis by blast
qed

theorem mac_invalid_separator_falls_back_witness:
  "'';'' \<notin> {'':'', ''-'', ''''} \<and> number_bounded canned
   \<and> mac canned (Some '';'') [1, 2, 3, 4, 5, 6, 7, 8, 9, 10, 11, 12, 13]
       = mac canned (Some '':'') [1, 2, 3, 4, 5, 6, 7, 8, 9, 10, 11, 12, 13]
   \<and> mac canned (Some '';'') [1, 2, 3, 4, 5, 6, 7, 8, 9, 10, 11, 12, 13]
       = (''12:34:56:78:9a:bc'', [13])"
proof -
  have sep: "'';'' \<notin> {'':'', ''-'', ''''}" by simp
  have run: "mac canned (Some '':'') [1, 2, 3, 4, 5, 6, 7, 8, 9, 10, 11, 12, 13]
       = (''12:34:56:78:9a:bc'', [13])"
    by code_simp
  note same = mac_invalid_separator_falls_back [OF sep canned_number_bounded,
      of "[1, 2, 3, 4, 5, 6, 7, 8, 9, 10, 11, 12, 13]", THEN conjunct1]
  from sep canned_number_bounded same same [unfolded run] show ?thesis
    by (intro conjI)
qed

text \<open>
  C10: on a provider that keeps its contract, \<open>color()\<close> with all bases omitted returns
  \<open>#\<close> followed by exactly six lower-case hexadecimal digits, two for each channel in the
  order red, green, blue; each channel is half of its draw of \<open>number(256)\<close>, rounded down,
  the draw being at most 256, so that no channel exceeds 128.
\<close>

theorem color_default_channels:
  assumes "number_bounded F"
  shows "\<exists>r g b s1 s2 s3.
           datatype_number F 256 s = (r, s1) \<and> datatype_number F 256 s1 = (g, s2)
         \<and> datatype_number F 256 s2 = (b, s3)
         \<and> r \<le> 256 \<and> g \<le> 256 \<and> b \<le> 256
         \<and> color F None None None s
             = (''#'' @ hex_byte (r div 2) @ hex_byte (g div 2) @ hex_byte (b div 2), s3)
         \<and> r div 2 \<le> 128 \<and> g div 2 \<le> 128 \<and> b div 2 \<le> 128
         \<and> length (fst (color F None None None s)) = 7
         \<and> set (tl (fst (color F None None None s))) \<subseteq> set ''0123456789abcdef''"
proof -
  obtain r s1 where r: "datatype_number F 256 s = (r, s1)" by (cases "datatype_number F 256 s")
  obtain g s2 where g: "datatype_number F 256 s1 = (g, s2)" by (cases "datatype_number F 256 s1")
  obtain b s3 where b: "datatype_number F 256 s2 = (b, s3)" by (cases "datatype_number F 256 s2")
  have bd: "fst (datatype_number F 256 t) \<le> 256" for t
    using assms by (simp add: number_bounded_def)
  from bd [of s] bd [of s1] bd [of s2] r g b
  have le: "r \<le> 256" "g \<le> 256" "b \<le> 256" by simp_all
  then have half: "r div 2 \<le> 128" "g div 2 \<le> 128" "b div 2 \<le> 128" by simp_all
  have ch: "pad2 (int_toString16 ((int k + 0) div 2)) = hex_byte (k div 2)" if "k \<le> 256" for k
  proof -
    from that have "k div 2 < 256" by simp
    from pad2_toString16 [OF this] show ?thesis by (simp add: zdiv_int)
  qed
  have col: "color F None None None s
      = (''#'' @ hex_byte (r div 2) @ hex_byte (g div 2) @ hex_byte (b div 2), s3)"
    using ch [OF le(1)] ch [OF le(2)] ch [OF le(3)] by (simp add: color_def r g b Let_def)
  have len: "length (fst (color F None None None s)) = 7"
    by (simp add: col hex_byte_def)
  have dig: "set (tl (fst (color F None None None s))) \<subseteq> set ''0123456789abcdef''"
    using digit_char_hex unfolding col hex_byte_def by (simp del: set_simps add: list.set)
  from r g b le col half len dig show ?thesis by blast
qed

theorem color_default_channels_witness:
  "number_bounded canned
   \<and> color canned None None None [256, 255, 3, 9] = (''#807f01'', [9])
   \<and> hex_byte (256 div 2) = ''80'' \<and> hex_byte (255 div 2) = ''7f'' \<and> hex_byte (3 div 2) = ''01''
   \<and> (256 :: nat) div 2 \<le> 128"
proof -
  have draws: "datatype_number canned 256 [256, 255, 3, 9] = (256, [255, 3, 9])"
    "datatype_number canned 256 [255, 3, 9] = (255, [3, 9])"
    "datatype_number canned 256 [3, 9] = (3, [9])"
    by code_simp+
  have bytes: "hex_byte (256 div 2) = ''80''" "hex_byte (255 div 2) = ''7f''"
    "hex_byte (3 div 2) = ''01''"
    by code_simp+
  from color_default_channels [OF canned_number_bounded, of "[256, 255, 3, 9]"]
  have "color canned None None None [256, 255, 3, 9] = (''#807f01'', [9])"
    using bytes by (auto simp: draws)
  with canned_number_bounded bytes show ?thesis by simp
qed

end
